theory Spec2Isabelle
  imports Main "HOL-Library.AList"
begin

section \<open>Data model of the watchdog state machine (state_machine.py)\<close>

text \<open>
  Time. \<open>datetime.now()\<close> is a reading of the wall clock with microsecond resolution; a
  timestamp is modelled as the integer number of microseconds since some epoch, and every
  operation that reads the clock takes the reading as its argument \<open>now\<close>. Successive
  readings made inside one call (the one in \<open>check_transition\<close> and the one in
  \<open>_deactivate_state\<close> that stamps the history entry) are identified.

  \<open>(current_time - t).total_seconds() * 1000\<close> is the elapsed time in milliseconds as a
  float; it is modelled exactly, as the elapsed microseconds: \<open>elapsed_ms > timeout_ms\<close>
  becomes \<open>elapsed_us > 1000 * timeout_ms\<close> and \<open>int(elapsed_ms)\<close> is the truncation
  towards zero of \<open>elapsed_us / 1000\<close>. Floating-point rounding is not modelled.
\<close>

type_synonym timestamp = int
type_synonym addr = nat

definition elapsed_us :: "timestamp \<Rightarrow> timestamp \<Rightarrow> int" where
  "elapsed_us current_time t = current_time - t"

definition exceeds_ms :: "int \<Rightarrow> int \<Rightarrow> bool" where
  "exceeds_ms e tmo = (e > 1000 * tmo)"

definition int_ms :: "int \<Rightarrow> int" where
  "int_ms e = (if 0 \<le> e then e div 1000 else - ((- e) div 1000))"

record WatchdogTransition =
  target_node :: string
  timeout_ms :: int
  transition_description :: string

record WatchdogState =
  name :: string
  start_node :: string
  transitions :: "WatchdogTransition list"
  description :: string
  is_active :: bool
  last_activation_time :: "timestamp option"
  current_transition_index :: nat

text \<open>
  The second component of a history entry is an f-string in the source
  (\<open>RESET by n\<close>, \<open>ACTIVATED by n\<close>, \<open>TRANSITION to n\<close>, \<open>COMPLETED by n\<close>,
  \<open>TIMEOUT after e ms\<close>); it is kept as its kind and its argument. The argument of
  \<open>TIMEOUT_after\<close> is the elapsed time in microseconds.
\<close>

datatype event =
    RESET_by string
  | ACTIVATED_by string
  | TRANSITION_to string
  | COMPLETED_by string
  | TIMEOUT_after int

text \<open>
  \<open>WatchdogState\<close> objects are mutable and shared: the dictionaries \<open>states\<close> and
  \<open>active_states\<close>, the tuples returned by \<open>check_timeouts\<close> and the loop variables of
  the monitor all hold references to the same objects. The objects live in a store
  \<open>heap\<close>, and the dictionaries hold addresses. A dictionary is an association list in
  insertion order: assignment is \<open>AList.update\<close> (an existing key keeps its place, a new
  one goes to the end), \<open>del\<close> is \<open>AList.delete\<close>, lookup is \<open>map_of\<close>.
\<close>

record WatchdogStateMachine =
  heap :: "addr \<Rightarrow> WatchdogState"
  states :: "(string \<times> addr) list"
  active_states :: "(string \<times> addr) list"
  state_history :: "(string \<times> event \<times> timestamp) list"

definition init_machine :: "(addr \<Rightarrow> WatchdogState) \<Rightarrow> WatchdogStateMachine" where
  "init_machine h = \<lparr>heap = h, states = [], active_states = [], state_history = []\<rparr>"

definition add_state :: "addr \<Rightarrow> WatchdogStateMachine \<Rightarrow> WatchdogStateMachine" where
  "add_state a m = m\<lparr>states := AList.update (name (heap m a)) a (states m)\<rparr>"

definition activate_state ::
  "string \<Rightarrow> string \<Rightarrow> timestamp \<Rightarrow> WatchdogStateMachine \<Rightarrow> bool \<times> WatchdogStateMachine" where
  "activate_state state_name trigger_node current_time m =
     (case map_of (states m) state_name of
        None \<Rightarrow> (False, m)
      | Some a \<Rightarrow>
          (let state = heap m a in
           if trigger_node \<noteq> start_node state then (False, m)
           else if is_active state then
             (True, m\<lparr>heap := (heap m)(a := state\<lparr>last_activation_time := Some current_time\<rparr>),
                      state_history := state_history m @ [(state_name, RESET_by trigger_node, current_time)]\<rparr>)
           else
             (True, m\<lparr>heap := (heap m)(a := state\<lparr>is_active := True,
                                                   last_activation_time := Some current_time,
                                                   current_transition_index := 0\<rparr>),
                      active_states := AList.update state_name a (active_states m),
                      state_history := state_history m @ [(state_name, ACTIVATED_by trigger_node, current_time)]\<rparr>)))"

definition deactivate_state ::
  "string \<Rightarrow> event \<Rightarrow> timestamp \<Rightarrow> WatchdogStateMachine \<Rightarrow> WatchdogStateMachine" where
  "deactivate_state state_name reason current_time m =
     (case map_of (active_states m) state_name of
        None \<Rightarrow> m
      | Some a \<Rightarrow>
          m\<lparr>heap := (heap m)(a := (heap m a)\<lparr>is_active := False,
                                             last_activation_time := None,
                                             current_transition_index := 0\<rparr>),
            active_states := AList.delete state_name (active_states m),
            state_history := state_history m @ [(state_name, reason, current_time)]\<rparr>)"

definition quoted :: "string \<Rightarrow> string" where
  "quoted s = [CHR 0x27] @ s @ [CHR 0x27]"

definition check_transition ::
  "string \<Rightarrow> string \<Rightarrow> timestamp \<Rightarrow> WatchdogStateMachine
     \<Rightarrow> (bool \<times> string) option \<times> WatchdogStateMachine" where
  "check_transition state_name node_name current_time m =
     (case map_of (active_states m) state_name of
        None \<Rightarrow> (None, m)
      | Some a \<Rightarrow>
          (let state = heap m a in
           if transitions state = [] \<or> current_transition_index state \<ge> length (transitions state)
           then (None, m)
           else
             (let current_transition = transitions state ! current_transition_index state in
              if node_name = target_node current_transition then
                (let state' = state\<lparr>current_transition_index := current_transition_index state + 1\<rparr>;
                     m' = m\<lparr>heap := (heap m)(a := state')\<rparr>
                 in if current_transition_index state' \<ge> length (transitions state') then
                      (Some (True, ''Rule '' @ quoted state_name @ '' completed successfully''),
                       deactivate_state state_name (COMPLETED_by node_name) current_time m')
                    else
                      (let next_transition = transitions state' ! current_transition_index state' in
                       (Some (False, ''Rule '' @ quoted state_name @ '' moved to next transition: ''
                                       @ target_node next_transition),
                        m'\<lparr>heap := (heap m')(a := state'\<lparr>last_activation_time := Some current_time\<rparr>),
                           state_history := state_history m' @
                             [(state_name, TRANSITION_to (target_node next_transition), current_time)]\<rparr>)))
              else (None, m))))"

text \<open>
  \<open>check_timeouts\<close> iterates over \<open>list(self.active_states.items())\<close>, a snapshot taken
  before the loop, and reads each object from the store as it is when its turn comes.
\<close>

fun check_timeouts_loop ::
  "timestamp \<Rightarrow> (string \<times> addr) list \<Rightarrow> (string \<times> addr \<times> int) list \<Rightarrow> WatchdogStateMachine
     \<Rightarrow> (string \<times> addr \<times> int) list \<times> WatchdogStateMachine" where
  "check_timeouts_loop current_time [] timeouts m = (timeouts, m)"
| "check_timeouts_loop current_time ((state_name, a) # rest) timeouts m =
     (let state = heap m a in
      case last_activation_time state of
        None \<Rightarrow> check_timeouts_loop current_time rest timeouts m
      | Some t \<Rightarrow>
          if current_transition_index state \<ge> length (transitions state)
          then check_timeouts_loop current_time rest timeouts m
          else
            (let current_transition = transitions state ! current_transition_index state;
                 elapsed = elapsed_us current_time t
             in if exceeds_ms elapsed (timeout_ms current_transition) then
                  check_timeouts_loop current_time rest
                    (timeouts @ [(state_name, a, int_ms elapsed)])
                    (deactivate_state state_name (TIMEOUT_after elapsed) current_time m)
                else check_timeouts_loop current_time rest timeouts m))"

definition check_timeouts ::
  "timestamp \<Rightarrow> WatchdogStateMachine \<Rightarrow> (string \<times> addr \<times> int) list \<times> WatchdogStateMachine" where
  "check_timeouts current_time m = check_timeouts_loop current_time (active_states m) [] m"

definition get_active_states :: "WatchdogStateMachine \<Rightarrow> (string \<times> addr) list" where
  "get_active_states m = active_states m"


text \<open>
  \<open>get_state_status\<close> returns a dictionary whose last five keys are present only for an
  active state; they are optional fields here. \<open>None\<close> for the whole result is the
  source's \<open>None\<close> for an unknown rule name.
\<close>

record state_status =
  status_name :: string
  status_start_node :: string
  status_description :: string
  status_is_active :: bool
  status_transitions :: "(string \<times> int \<times> string) list"
  status_current_transition_index :: "nat option"
  status_current_target :: "string option"
  status_current_timeout :: "int option"
  status_elapsed_ms :: "int option"
  status_remaining_ms :: "int option"

definition get_state_status ::
  "string \<Rightarrow> timestamp \<Rightarrow> WatchdogStateMachine \<Rightarrow> state_status option" where
  "get_state_status state_name current_time m =
     (case map_of (states m) state_name of
        None \<Rightarrow> None
      | Some a \<Rightarrow>
          (let state = heap m a;
               status = \<lparr>status_name = name state,
                         status_start_node = start_node state,
                         status_description = description state,
                         status_is_active = is_active state,
                         status_transitions =
                           map (\<lambda>t. (target_node t, timeout_ms t, transition_description t))
                               (transitions state),
                         status_current_transition_index = None,
                         status_current_target = None,
                         status_current_timeout = None,
                         status_elapsed_ms = None,
                         status_remaining_ms = None\<rparr>
           in if is_active state then
                (let status1 = status\<lparr>status_current_transition_index :=
                                          Some (current_transition_index state)\<rparr>
                 in if current_transition_index state < length (transitions state) then
                      (let current_transition = transitions state ! current_transition_index state;
                           status2 = status1\<lparr>status_current_target := Some (target_node current_transition),
                                             status_current_timeout := Some (timeout_ms current_transition)\<rparr>
                       in case last_activation_time state of
                            None \<Rightarrow> Some status2
                          | Some t \<Rightarrow>
                              (let elapsed = elapsed_us current_time t in
                               Some (status2\<lparr>status_elapsed_ms := Some (int_ms elapsed),
                                             status_remaining_ms :=
                                               Some (max 0 (timeout_ms current_transition - int_ms elapsed))\<rparr>)))
                    else Some status1)
              else Some status))"

section \<open>Notifications for state rules (notifier.py)\<close>

text \<open>
  \<open>send_state_completed\<close> and \<open>send_state_timeout\<close> build a text message from their
  arguments and hand it to the transport. A notification is the tuple of values that the
  message is built from, in the order of the message's lines; the last component is the
  clock reading that the message ends with. Both functions read the \<open>state\<close> object at
  the moment of the call. In \<open>StateTimeout\<close> the third and fourth components are \<open>None\<close>
  where the message says that the awaited node is unknown.
\<close>

datatype notification =
    StateCompleted string string string string timestamp
  | StateTimeout string string "string option" "int option" int string timestamp

definition send_state_completed ::
  "string \<Rightarrow> WatchdogState \<Rightarrow> string \<Rightarrow> timestamp \<Rightarrow> notification" where
  "send_state_completed state_name state node_name current_time =
     StateCompleted state_name (start_node state) node_name (description state) current_time"

definition send_state_timeout ::
  "string \<Rightarrow> WatchdogState \<Rightarrow> int \<Rightarrow> timestamp \<Rightarrow> notification" where
  "send_state_timeout state_name state elapsed_ms current_time =
     (let current_transition =
            (if current_transition_index state < length (transitions state)
             then Some (transitions state ! current_transition_index state) else None)
      in StateTimeout state_name (start_node state)
           (map_option target_node current_transition)
           (map_option timeout_ms current_transition)
           elapsed_ms (description state) current_time)"

section \<open>The monitor's use of the state machine (log_monitor.py)\<close>

text \<open>
  \<open>_check_state_machine_rules\<close>: first \<open>activate_state\<close> for every entry of \<open>states\<close>
  (the result is only printed), then \<open>check_transition\<close> for every entry of a copy of
  \<open>active_states\<close> taken after the first loop, with a completion notification when the
  result says so. The notifications sent are collected in order.
\<close>

fun trigger_loop ::
  "string \<Rightarrow> timestamp \<Rightarrow> (string \<times> addr) list \<Rightarrow> WatchdogStateMachine \<Rightarrow> WatchdogStateMachine" where
  "trigger_loop node_name current_time [] m = m"
| "trigger_loop node_name current_time ((state_name, a) # rest) m =
     trigger_loop node_name current_time rest (snd (activate_state state_name node_name current_time m))"

definition advance_step ::
  "string \<Rightarrow> timestamp \<Rightarrow> string \<times> addr \<Rightarrow> notification list \<times> WatchdogStateMachine
     \<Rightarrow> notification list \<times> WatchdogStateMachine" where
  "advance_step node_name current_time entry acc =
     (case (entry, acc) of ((state_name, a), (sent, m)) \<Rightarrow>
        (case check_transition state_name node_name current_time m of
           (None, m') \<Rightarrow> (sent, m')
         | (Some (is_completed, message), m') \<Rightarrow>
             if is_completed
             then (sent @ [send_state_completed state_name (heap m' a) node_name current_time], m')
             else (sent, m')))"

fun advance_loop ::
  "string \<Rightarrow> timestamp \<Rightarrow> (string \<times> addr) list \<Rightarrow> notification list \<times> WatchdogStateMachine
     \<Rightarrow> notification list \<times> WatchdogStateMachine" where
  "advance_loop node_name current_time [] acc = acc"
| "advance_loop node_name current_time (entry # rest) acc =
     advance_loop node_name current_time rest (advance_step node_name current_time entry acc)"

definition check_state_machine_rules ::
  "string \<Rightarrow> timestamp \<Rightarrow> WatchdogStateMachine \<Rightarrow> notification list \<times> WatchdogStateMachine" where
  "check_state_machine_rules node_name current_time m =
     (let m1 = trigger_loop node_name current_time (states m) m
      in advance_loop node_name current_time (get_active_states m1) ([], m1))"

text \<open>
  The state-machine half of \<open>_check_timeouts\<close>: the notifier is called for each reported
  timeout after \<open>check_timeouts\<close> has returned, so it reads the objects as the sweep left
  them.
\<close>

definition monitor_check_timeouts ::
  "timestamp \<Rightarrow> WatchdogStateMachine \<Rightarrow> notification list \<times> WatchdogStateMachine" where
  "monitor_check_timeouts current_time m =
     (case check_timeouts current_time m of (timeouts, m') \<Rightarrow>
        (map (\<lambda>(state_name, a, elapsed_ms).
                send_state_timeout state_name (heap m' a) elapsed_ms current_time) timeouts,
         m'))"

section \<open>The log source reader (log_monitor.py)\<close>

text \<open>
  The log file is opened with \<open>open(path, 'r', encoding='utf-8')\<close>: a text stream over
  the bytes of the file, decoded strictly as UTF-8, in universal-newlines mode. The file
  is its content, a list of bytes, and the position of the file object, a byte offset
  (what \<open>tell\<close> returns and \<open>seek\<close> takes when no decoding is pending, as is the case
  after \<open>seek\<close> and after \<open>read()\<close> to the end). A Python \<open>str\<close> is a list of code
  points, each kept as the bytes that encode it, so that \<open>len\<close> of a \<open>str\<close> is the
  length of the list while the bytes it came from are its concatenation.
\<close>

type_synonym code_point = string
type_synonym str = "code_point list"

text \<open>
  Strict UTF-8 decoding of a byte string that is read to the end of the file: the
  well-formed byte sequences of the Unicode standard, one code point at a time; \<open>None\<close>
  where Python raises \<open>UnicodeDecodeError\<close> (a byte that cannot start a sequence, a
  wrong continuation byte, a sequence cut short by the end of the input).
\<close>

datatype read_error = UnicodeDecodeError

definition seq_len :: "nat \<Rightarrow> nat" where
  "seq_len b =
     (if b < 0x80 then 1
      else if 0xC2 \<le> b \<and> b \<le> 0xDF then 2
      else if 0xE0 \<le> b \<and> b \<le> 0xEF then 3
      else if 0xF0 \<le> b \<and> b \<le> 0xF4 then 4
      else 0)"

definition second_ok :: "nat \<Rightarrow> nat \<Rightarrow> bool" where
  "second_ok b c =
     (if b = 0xE0 then 0xA0 \<le> c \<and> c \<le> 0xBF
      else if b = 0xED then 0x80 \<le> c \<and> c \<le> 0x9F
      else if b = 0xF0 then 0x90 \<le> c \<and> c \<le> 0xBF
      else if b = 0xF4 then 0x80 \<le> c \<and> c \<le> 0x8F
      else 0x80 \<le> c \<and> c \<le> 0xBF)"

definition is_continuation :: "char \<Rightarrow> bool" where
  "is_continuation c = (0x80 \<le> (of_char c :: nat) \<and> (of_char c :: nat) \<le> 0xBF)"

function utf8_decode :: "string \<Rightarrow> str option" where
  "utf8_decode [] = Some []"
| "utf8_decode (b # bs) =
     (let n = seq_len (of_char b);
          tail = take (n - 1) bs
      in if n = 0 \<or> length bs < n - 1 then None
         else if 1 < n \<and> \<not> (second_ok (of_char b) (of_char (hd tail)) \<and>
                               list_all is_continuation (tl tail)) then None
         else map_option ((#) (b # tail)) (utf8_decode (drop (n - 1) bs)))"
  by pat_completeness auto
termination
  by (relation "measure length") auto

text \<open>
  Universal newlines: on reading, \<open>\r\n\<close> and a lone \<open>\r\<close> are translated to \<open>\n\<close>.
\<close>

definition newline :: code_point where
  "newline = [CHR 0x0A]"

definition carriage_return :: code_point where
  "carriage_return = [CHR 0x0D]"

fun universal_newlines :: "str \<Rightarrow> str" where
  "universal_newlines [] = []"
| "universal_newlines [c] = (if c = carriage_return then [newline] else [c])"
| "universal_newlines (c # d # cs) =
     (if c = carriage_return then
        (if d = newline then newline # universal_newlines cs
         else newline # universal_newlines (d # cs))
      else c # universal_newlines (d # cs))"

text \<open>\<open>s.split(c)\<close> for a one-element separator.\<close>

fun split_on :: "'a \<Rightarrow> 'a list \<Rightarrow> 'a list list" where
  "split_on c [] = [[]]"
| "split_on c (x # xs) =
     (if x = c then [] # split_on c xs
      else (x # hd (split_on c xs)) # tl (split_on c xs))"

text \<open>
  The code points that \<open>str.strip()\<close> removes: the characters for which \<open>str.isspace\<close>
  holds (U+0009 to U+000D, U+001C to U+0020, U+0085, U+00A0, U+1680, U+2000 to U+200A,
  U+2028, U+2029, U+202F, U+205F, U+3000), as the values of their UTF-8 bytes.
\<close>

definition whitespace :: "nat list list" where
  "whitespace =
     [[0x09], [0x0A], [0x0B], [0x0C], [0x0D], [0x1C], [0x1D], [0x1E], [0x1F], [0x20],
      [0xC2, 0x85], [0xC2, 0xA0], [0xE1, 0x9A, 0x80],
      [0xE2, 0x80, 0x80], [0xE2, 0x80, 0x81], [0xE2, 0x80, 0x82], [0xE2, 0x80, 0x83],
      [0xE2, 0x80, 0x84], [0xE2, 0x80, 0x85], [0xE2, 0x80, 0x86], [0xE2, 0x80, 0x87],
      [0xE2, 0x80, 0x88], [0xE2, 0x80, 0x89], [0xE2, 0x80, 0x8A],
      [0xE2, 0x80, 0xA8], [0xE2, 0x80, 0xA9], [0xE2, 0x80, 0xAF], [0xE2, 0x81, 0x9F],
      [0xE3, 0x80, 0x80]]"

definition is_space :: "code_point \<Rightarrow> bool" where
  "is_space c = (map of_char c \<in> set whitespace)"

definition strip :: "str \<Rightarrow> str" where
  "strip s = rev (dropWhile is_space (rev (dropWhile is_space s)))"

definition strip_nonempty :: "str \<Rightarrow> bool" where
  "strip_nonempty line = (strip line \<noteq> [])"

definition endswith_newline :: "str \<Rightarrow> bool" where
  "endswith_newline s = (s \<noteq> [] \<and> last s = newline)"

text \<open>
  One call of \<open>_read_new_log_lines\<close> on an open file takes the content as it is at the
  call and the position, and returns the lines and the position it leaves. Where
  \<open>read()\<close> raises \<open>UnicodeDecodeError\<close>, the handler prints the error and the call
  returns the empty list; the model's result is the error, and it says nothing about the
  position of the file object after it. The put-back is
  \<open>seek(tell() - len(incomplete_line))\<close>: the byte offset of the end of the file minus
  the number of code points of the fragment.
\<close>

definition read_new_log_lines :: "string \<Rightarrow> nat \<Rightarrow> read_error + (str list \<times> nat)" where
  "read_new_log_lines content current_position =
     (let end_position = length content in
      if end_position \<le> current_position then Inr ([], end_position)
      else
        (case utf8_decode (drop current_position content) of
           None \<Rightarrow> Inl UnicodeDecodeError
         | Some decoded \<Rightarrow>
             (let new_content = universal_newlines decoded in
              if new_content \<noteq> [] then
                (let lines = split_on newline new_content
                 in if \<not> endswith_newline new_content \<and> length lines > 1 then
                      (let incomplete_line = last lines
                       in Inr (filter strip_nonempty (butlast lines),
                               end_position - length incomplete_line))
                    else Inr (filter strip_nonempty lines, end_position))
              else Inr ([], end_position))))"

section \<open>Scenarios\<close>

text \<open>
  The rule \<open>R\<close> of the specification's scenarios, start node \<open>A\<close> and steps
  \<open>(100 ms, B)\<close>, \<open>(200 ms, C)\<close>, as the configuration loader builds it, and a
  heartbeat-style rule \<open>H\<close> whose only step waits for its own start node \<open>X\<close>. Each
  machine holds its rule as the object at address 0.
\<close>

definition rule_R :: WatchdogState where
  "rule_R = \<lparr>name = ''R'', start_node = ''A'',
      transitions =
        [\<lparr>target_node = ''B'', timeout_ms = 100, transition_description = ''Transition to B''\<rparr>,
         \<lparr>target_node = ''C'', timeout_ms = 200, transition_description = ''Final transition to C''\<rparr>],
      description = [], is_active = False, last_activation_time = None,
      current_transition_index = 0\<rparr>"

definition machine_R :: WatchdogStateMachine where
  "machine_R = add_state 0 (init_machine (\<lambda>_. rule_R))"

definition rule_H :: WatchdogState where
  "rule_H = \<lparr>name = ''H'', start_node = ''X'',
      transitions =
        [\<lparr>target_node = ''X'', timeout_ms = 100, transition_description = ''Final transition to X''\<rparr>],
      description = [], is_active = False, last_activation_time = None,
      current_transition_index = 0\<rparr>"

definition machine_H :: WatchdogStateMachine where
  "machine_H = add_state 0 (init_machine (\<lambda>_. rule_H))"

text \<open>Processing a sequence of events \<open>(node, time)\<close> in order, collecting the notifications.\<close>

fun process_events ::
  "(string \<times> timestamp) list \<Rightarrow> notification list \<times> WatchdogStateMachine
     \<Rightarrow> notification list \<times> WatchdogStateMachine" where
  "process_events [] acc = acc"
| "process_events ((node_name, t) # rest) acc =
     (case check_state_machine_rules node_name t (snd acc) of
        (sent, m') \<Rightarrow> process_events rest (fst acc @ sent, m'))"

text \<open>
  The engine states that a run of the program can be in: the empty machine over any store,
  and whatever the operations of the engine and of the monitor make of a reachable state.
\<close>

inductive reachable :: "WatchdogStateMachine \<Rightarrow> bool" where
  reach_init: "reachable (init_machine h)"
| reach_add: "reachable m \<Longrightarrow> reachable (add_state a m)"
| reach_activate: "reachable m \<Longrightarrow> reachable (snd (activate_state state_name node_name t m))"
| reach_transition: "reachable m \<Longrightarrow> reachable (snd (check_transition state_name node_name t m))"
| reach_timeouts: "reachable m \<Longrightarrow> reachable (snd (check_timeouts t m))"
| reach_deactivate: "reachable m \<Longrightarrow> reachable (deactivate_state state_name reason t m)"
| reach_event: "reachable m \<Longrightarrow> reachable (snd (check_state_machine_rules node_name t m))"
| reach_sweep: "reachable m \<Longrightarrow> reachable (snd (monitor_check_timeouts t m))"

text \<open>
  A second rule \<open>Q\<close> with the same start node \<open>A\<close> and one step \<open>(300 ms, D)\<close>, and the
  machine that holds \<open>R\<close> at address 0 and \<open>Q\<close> at address 1.
\<close>

definition rule_Q :: WatchdogState where
  "rule_Q = \<lparr>name = ''Q'', start_node = ''A'',
      transitions =
        [\<lparr>target_node = ''D'', timeout_ms = 300, transition_description = ''Final transition to D''\<rparr>],
      description = [], is_active = False, last_activation_time = None,
      current_transition_index = 0\<rparr>"

definition machine_RQ :: WatchdogStateMachine where
  "machine_RQ = add_state 1 (add_state 0 (init_machine ((\<lambda>_. rule_R)(1 := rule_Q))))"

section \<open>Notions used in the statements\<close>

text \<open>The rule a notification is about, and whether it is a completion notification.\<close>

fun notification_rule :: "notification \<Rightarrow> string" where
  "notification_rule (StateCompleted state_name _ _ _ _) = state_name"
| "notification_rule (StateTimeout state_name _ _ _ _ _ _) = state_name"

fun is_completion :: "notification \<Rightarrow> bool" where
  "is_completion (StateCompleted _ _ _ _ _) = True"
| "is_completion (StateTimeout _ _ _ _ _ _ _) = False"

text \<open>
  The condition under which one turn of the loop of \<open>check_timeouts\<close> reports the object
  it looks at, and the elapsed time it reports.
\<close>

definition timed_out :: "timestamp \<Rightarrow> WatchdogState \<Rightarrow> bool" where
  "timed_out t state =
     (case last_activation_time state of
        None \<Rightarrow> False
      | Some t0 \<Rightarrow>
          current_transition_index state < length (transitions state) \<and>
          exceeds_ms (elapsed_us t t0)
            (timeout_ms (transitions state ! current_transition_index state)))"

definition elapsed_of :: "timestamp \<Rightarrow> WatchdogState \<Rightarrow> int" where
  "elapsed_of t state = elapsed_us t (the (last_activation_time state))"

text \<open>
  The machine of rule \<open>R\<close> after \<open>A\<close> at 0 ms, and after \<open>A\<close> at 0 ms and \<open>B\<close> at 50 ms.
\<close>

definition machine_R_A :: WatchdogStateMachine where
  "machine_R_A = snd (process_events [(''A'', 0)] ([], machine_R))"

definition machine_R_AB :: WatchdogStateMachine where
  "machine_R_AB = snd (process_events [(''A'', 0), (''B'', 50000)] ([], machine_R))"

text \<open>The machine of \<open>R\<close> and \<open>Q\<close> after \<open>A\<close> at 0 ms.\<close>

definition machine_RQ_A :: WatchdogStateMachine where
  "machine_RQ_A = snd (process_events [(''A'', 0)] ([], machine_RQ))"

text \<open>
  What a sweep at time \<open>t\<close> reports for an entry of the active set, read from the machine
  the sweep starts from, and whether the entry's object is timed out there.
\<close>

definition report ::
  "timestamp \<Rightarrow> WatchdogStateMachine \<Rightarrow> string \<times> addr \<Rightarrow> string \<times> addr \<times> int" where
  "report t m entry = (fst entry, snd entry, int_ms (elapsed_of t (heap m (snd entry))))"

definition due :: "timestamp \<Rightarrow> WatchdogStateMachine \<Rightarrow> string \<times> addr \<Rightarrow> bool" where
  "due t m entry = timed_out t (heap m (snd entry))"

text \<open>
  An ASCII string as a \<open>str\<close>, and the six bytes that encode the two characters U+72B6
  and U+6001.
\<close>

definition ascii :: "string \<Rightarrow> str" where
  "ascii s = map (\<lambda>c. [c]) s"

definition two_wide_characters :: string where
  "two_wide_characters = [CHR 0xE7, CHR 0x8A, CHR 0xB6, CHR 0xE6, CHR 0x80, CHR 0x81]"

section \<open>Evaluation and helper lemmas\<close>

lemmas engine_defs =
  check_state_machine_rules_def monitor_check_timeouts_def check_timeouts_def
  add_state_def init_machine_def activate_state_def check_transition_def deactivate_state_def
  advance_step_def get_active_states_def send_state_timeout_def send_state_completed_def
  elapsed_us_def exceeds_ms_def int_ms_def Let_def

lemmas reader_defs =
  read_new_log_lines_def Let_def newline_def carriage_return_def endswith_newline_def
  strip_nonempty_def strip_def is_space_def whitespace_def ascii_def seq_len_def second_ok_def
  is_continuation_def

lemma machine_RQ_A_eq:
  "machine_RQ_A =
     \<lparr>heap = (\<lambda>_. rule_R)(1 := rule_Q\<lparr>is_active := True, last_activation_time := Some 0\<rparr>,
                             0 := rule_R\<lparr>is_active := True, last_activation_time := Some 0\<rparr>),
      states = [(''R'', 0), (''Q'', 1)],
      active_states = [(''R'', 0), (''Q'', 1)],
      state_history = [(''R'', ACTIVATED_by ''A'', 0), (''Q'', ACTIVATED_by ''A'', 0)]\<rparr>"
  unfolding machine_RQ_A_def machine_RQ_def rule_R_def rule_Q_def
  by (simp add: engine_defs fun_upd_twist)

lemma machine_R_A_eq:
  "machine_R_A =
     \<lparr>heap = (\<lambda>_. rule_R)(0 := rule_R\<lparr>is_active := True, last_activation_time := Some 0\<rparr>),
      states = [(''R'', 0)],
      active_states = [(''R'', 0)],
      state_history = [(''R'', ACTIVATED_by ''A'', 0)]\<rparr>"
  unfolding machine_R_A_def machine_R_def rule_R_def
  by (simp add: engine_defs)

lemma machine_R_AB_eq:
  "machine_R_AB =
     \<lparr>heap = (\<lambda>_. rule_R)(0 := rule_R\<lparr>is_active := True, last_activation_time := Some 50000,
                                            current_transition_index := 1\<rparr>),
      states = [(''R'', 0)],
      active_states = [(''R'', 0)],
      state_history = [(''R'', ACTIVATED_by ''A'', 0), (''R'', TRANSITION_to ''C'', 50000)]\<rparr>"
  unfolding machine_R_AB_def machine_R_def rule_R_def
  by (simp add: engine_defs)

subsection \<open>Notifications of an event\<close>

lemma advance_step_completions:
  "list_all is_completion (fst acc) \<Longrightarrow> list_all is_completion (fst (advance_step node t entry acc))"
  by (cases entry; cases acc)
     (auto simp: advance_step_def send_state_completed_def split: prod.splits option.splits)

lemma advance_loop_completions:
  "list_all is_completion (fst acc) \<Longrightarrow> list_all is_completion (fst (advance_loop node t l acc))"
proof (induction l arbitrary: acc)
  case Nil
  then show ?case by simp
next
  case (Cons entry l)
  from Cons.prems have "list_all is_completion (fst (advance_step node t entry acc))"
    by (rule advance_step_completions)
  then show ?case by (simp add: Cons.IH)
qed

lemma event_only_completions:
  "list_all is_completion (fst (check_state_machine_rules node t m))"
  by (simp add: check_state_machine_rules_def Let_def advance_loop_completions)

subsection \<open>Events that match nothing\<close>

lemma activate_state_other:
  assumes "\<forall>(n, a) \<in> set (states m). start_node (heap m a) \<noteq> node"
  shows "activate_state state_name node t m = (False, m)"
proof (cases "map_of (states m) state_name")
  case None
  then show ?thesis by (simp add: activate_state_def)
next
  case (Some a)
  then have "(state_name, a) \<in> set (states m)" by (rule map_of_SomeD)
  with assms have "start_node (heap m a) \<noteq> node" by auto
  with Some show ?thesis by (auto simp add: activate_state_def)
qed

lemma trigger_loop_other:
  assumes "\<forall>(n, a) \<in> set (states m). start_node (heap m a) \<noteq> node"
  shows "trigger_loop node t l m = m"
  using assms by (induction l) (auto simp: activate_state_other)

lemma check_transition_other:
  assumes "\<forall>(n, a) \<in> set (active_states m).
             current_transition_index (heap m a) < length (transitions (heap m a)) \<longrightarrow>
             target_node (transitions (heap m a) ! current_transition_index (heap m a)) \<noteq> node"
  shows "check_transition state_name node t m = (None, m)"
proof (cases "map_of (active_states m) state_name")
  case None
  then show ?thesis by (simp add: check_transition_def)
next
  case (Some a)
  then have "(state_name, a) \<in> set (active_states m)" by (rule map_of_SomeD)
  with assms have "current_transition_index (heap m a) < length (transitions (heap m a)) \<longrightarrow>
             target_node (transitions (heap m a) ! current_transition_index (heap m a)) \<noteq> node"
    by auto
  with Some show ?thesis by (auto simp add: check_transition_def Let_def)
qed

lemma advance_loop_other:
  assumes "\<forall>(n, a) \<in> set (active_states m).
             current_transition_index (heap m a) < length (transitions (heap m a)) \<longrightarrow>
             target_node (transitions (heap m a) ! current_transition_index (heap m a)) \<noteq> node"
  shows "advance_loop node t l (sent, m) = (sent, m)"
  using assms
  by (induction l) (auto simp: advance_step_def check_transition_other)

subsection \<open>Keys of the active set\<close>

lemma deactivate_keys:
  "fst ` set (active_states (deactivate_state n r t m)) = fst ` set (active_states m) - {n}"
  by (force simp: deactivate_state_def AList.delete_eq map_of_eq_None_iff split: option.splits)

lemma deactivate_distinct:
  "distinct (map fst (active_states m)) \<Longrightarrow> distinct (map fst (active_states (deactivate_state n r t m)))"
  by (auto simp: deactivate_state_def distinct_delete split: option.splits)

lemma activate_distinct:
  "distinct (map fst (active_states m)) \<Longrightarrow> distinct (map fst (active_states (snd (activate_state n node t m))))"
  by (auto simp: activate_state_def Let_def distinct_update split: option.splits)

lemma transition_distinct:
  "distinct (map fst (active_states m)) \<Longrightarrow> distinct (map fst (active_states (snd (check_transition n node t m))))"
  by (auto simp: check_transition_def Let_def deactivate_state_def distinct_delete split: option.splits)

lemma timeouts_loop_distinct:
  "distinct (map fst (active_states m)) \<Longrightarrow>
   distinct (map fst (active_states (snd (check_timeouts_loop t snap acc m))))"
proof (induction t snap acc m rule: check_timeouts_loop.induct)
  case (1 t acc m)
  then show ?case by simp
next
  case (2 t n a rest acc m)
  then show ?case
    by (auto simp: Let_def deactivate_distinct split: option.splits)
qed

lemma trigger_loop_distinct:
  "distinct (map fst (active_states m)) \<Longrightarrow>
   distinct (map fst (active_states (trigger_loop node t l m)))"
  by (induction l arbitrary: m) (auto simp: activate_distinct)

lemma advance_step_distinct:
  "distinct (map fst (active_states (snd acc))) \<Longrightarrow>
   distinct (map fst (active_states (snd (advance_step node t entry acc))))"
  using transition_distinct[of "snd acc" "fst entry" node t]
  by (cases entry; cases acc) (auto simp: advance_step_def split: prod.splits option.splits)

lemma advance_loop_distinct:
  "distinct (map fst (active_states (snd acc))) \<Longrightarrow>
   distinct (map fst (active_states (snd (advance_loop node t l acc))))"
proof (induction l arbitrary: acc)
  case Nil
  then show ?case by simp
next
  case (Cons entry l)
  from Cons.prems have "distinct (map fst (active_states (snd (advance_step node t entry acc))))"
    by (rule advance_step_distinct)
  then show ?case by (simp add: Cons.IH)
qed

lemma event_distinct:
  "distinct (map fst (active_states m)) \<Longrightarrow>
   distinct (map fst (active_states (snd (check_state_machine_rules node t m))))"
  by (simp add: check_state_machine_rules_def Let_def get_active_states_def
        advance_loop_distinct trigger_loop_distinct)

lemma sweep_distinct:
  "distinct (map fst (active_states m)) \<Longrightarrow>
   distinct (map fst (active_states (snd (monitor_check_timeouts t m))))"
  using timeouts_loop_distinct[of m t "active_states m" "[]"]
  by (cases "check_timeouts_loop t (active_states m) [] m")
     (simp add: monitor_check_timeouts_def check_timeouts_def)

subsection \<open>The sweep\<close>

lemma timeouts_loop_Cons:
  "check_timeouts_loop t ((n, a) # rest) acc m =
     (if timed_out t (heap m a)
      then check_timeouts_loop t rest (acc @ [(n, a, int_ms (elapsed_of t (heap m a)))])
             (deactivate_state n (TIMEOUT_after (elapsed_of t (heap m a))) t m)
      else check_timeouts_loop t rest acc m)"
  by (simp add: timed_out_def elapsed_of_def Let_def split: option.splits)

lemma timeouts_loop_removed:
  "fst ` set acc \<inter> fst ` set (active_states m) = {} \<Longrightarrow>
   fst ` set (fst (check_timeouts_loop t snap acc m))
     \<inter> fst ` set (active_states (snd (check_timeouts_loop t snap acc m))) = {}"
proof (induction snap arbitrary: acc m)
  case Nil
  then show ?case by simp
next
  case (Cons entry rest)
  obtain n a where entry: "entry = (n, a)" by (cases entry)
  show ?case
  proof (cases "timed_out t (heap m a)")
    case True
    let ?e = "elapsed_of t (heap m a)"
    have "fst ` set (acc @ [(n, a, int_ms ?e)])
            \<inter> fst ` set (active_states (deactivate_state n (TIMEOUT_after ?e) t m)) = {}"
      using Cons.prems by (auto simp: deactivate_keys)
    then show ?thesis
      unfolding entry timeouts_loop_Cons using True by (simp only: if_True Cons.IH)
  next
    case False
    then show ?thesis
      unfolding entry timeouts_loop_Cons using Cons.prems by (simp only: if_False Cons.IH)
  qed
qed

lemma timeouts_loop_subset:
  "fst ` set (fst (check_timeouts_loop t snap acc m)) \<subseteq> fst ` set acc \<union> fst ` set snap"
proof (induction snap arbitrary: acc m)
  case Nil
  then show ?case by simp
next
  case (Cons entry rest)
  obtain n a where entry: "entry = (n, a)" by (cases entry)
  show ?case
  proof (cases "timed_out t (heap m a)")
    case True
    let ?e = "elapsed_of t (heap m a)"
    have "fst ` set (fst (check_timeouts_loop t rest (acc @ [(n, a, int_ms ?e)])
             (deactivate_state n (TIMEOUT_after ?e) t m)))
          \<subseteq> fst ` set (acc @ [(n, a, int_ms ?e)]) \<union> fst ` set rest"
      by (rule Cons.IH)
    then show ?thesis
      unfolding entry timeouts_loop_Cons using True by auto
  next
    case False
    have "fst ` set (fst (check_timeouts_loop t rest acc m)) \<subseteq> fst ` set acc \<union> fst ` set rest"
      by (rule Cons.IH)
    then show ?thesis
      unfolding entry timeouts_loop_Cons using False by auto
  qed
qed

lemma timeouts_loop_names_distinct:
  "distinct (map fst acc) \<Longrightarrow> distinct (map fst snap) \<Longrightarrow>
   fst ` set acc \<inter> fst ` set snap = {} \<Longrightarrow>
   distinct (map fst (fst (check_timeouts_loop t snap acc m)))"
proof (induction snap arbitrary: acc m)
  case Nil
  then show ?case by simp
next
  case (Cons entry rest)
  obtain n a where entry: "entry = (n, a)" by (cases entry)
  have d: "distinct (map fst rest)" and n: "n \<notin> fst ` set rest" and na: "n \<notin> fst ` set acc"
    and dj: "fst ` set acc \<inter> fst ` set rest = {}"
    using Cons.prems by (auto simp: entry)
  show ?case
  proof (cases "timed_out t (heap m a)")
    case True
    let ?acc = "acc @ [(n, a, int_ms (elapsed_of t (heap m a)))]"
    have d': "distinct (map fst ?acc)"
      using Cons.prems(1) na by auto
    have dj': "fst ` set ?acc \<inter> fst ` set rest = {}"
      using dj n by auto
    show ?thesis
      unfolding entry timeouts_loop_Cons using True Cons.IH[OF d' d dj'] by (simp only: if_True)
  next
    case False
    show ?thesis
      unfolding entry timeouts_loop_Cons using False Cons.IH[OF Cons.prems(1) d dj]
      by (simp only: if_False)
  qed
qed

lemma timeouts_keys_subset:
  "fst ` set (fst (check_timeouts t m)) \<subseteq> fst ` set (active_states m)"
  using timeouts_loop_subset[of t "active_states m" "[]" m] by (simp add: check_timeouts_def)

lemma timeouts_removed:
  "fst ` set (fst (check_timeouts t m)) \<inter> fst ` set (active_states (snd (check_timeouts t m))) = {}"
  using timeouts_loop_removed[of "[]" m t "active_states m"] by (simp add: check_timeouts_def)

lemma timeouts_names_distinct:
  "distinct (map fst (active_states m)) \<Longrightarrow> distinct (map fst (fst (check_timeouts t m)))"
  using timeouts_loop_names_distinct[of "[]" "active_states m" t m] by (simp add: check_timeouts_def)

lemma monitor_timeouts_rules:
  "map notification_rule (fst (monitor_check_timeouts t m)) = map fst (fst (check_timeouts t m))"
  by (cases "check_timeouts t m") (auto simp: monitor_check_timeouts_def send_state_timeout_def Let_def)

lemma monitor_timeouts_machine:
  "snd (monitor_check_timeouts t m) = snd (check_timeouts t m)"
  by (cases "check_timeouts t m") (auto simp: monitor_check_timeouts_def)

lemma deactivate_present:
  assumes "map_of (active_states m) n = Some a"
  shows "heap (deactivate_state n r t m) = (heap m)(a := (heap m a)\<lparr>is_active := False,
             last_activation_time := None, current_transition_index := 0\<rparr>)"
    and "active_states (deactivate_state n r t m) = AList.delete n (active_states m)"
  using assms by (simp_all add: deactivate_state_def)

lemma timeouts_loop_exact:
  assumes "distinct (map fst (active_states m))"
    and "set snap \<subseteq> set (active_states m)"
    and "distinct (map fst snap)"
    and "distinct (map snd snap)"
  shows "fst (check_timeouts_loop t snap acc m) = acc @ map (report t m) (filter (due t m) snap)"
  using assms
proof (induction snap arbitrary: acc m)
  case Nil
  then show ?case by simp
next
  case (Cons entry rest)
  obtain n a where entry: "entry = (n, a)" by (cases entry)
  have rest_sub: "set rest \<subseteq> set (active_states m)" using Cons.prems(2) by simp
  have rest_k: "distinct (map fst rest)" and rest_a: "distinct (map snd rest)"
    and n_rest: "n \<notin> fst ` set rest" and a_rest: "a \<notin> snd ` set rest"
    using Cons.prems(3,4) by (auto simp: entry)
  show ?case
  proof (cases "timed_out t (heap m a)")
    case True
    let ?e = "elapsed_of t (heap m a)"
    let ?m' = "deactivate_state n (TIMEOUT_after ?e) t m"
    have "(n, a) \<in> set (active_states m)" using Cons.prems(2) by (simp add: entry)
    with Cons.prems(1) have look: "map_of (active_states m) n = Some a" by simp
    note d = deactivate_present [OF look, of "TIMEOUT_after ?e" t]
    have k': "distinct (map fst (active_states ?m'))"
      using Cons.prems(1) by (simp add: d distinct_delete)
    have sub': "set rest \<subseteq> set (active_states ?m')"
      using rest_sub n_rest by (force simp: d AList.delete_eq)
    have same: "heap ?m' (snd e) = heap m (snd e)" if "e \<in> set rest" for e
      using that a_rest by (auto simp: d)
    have f: "filter (due t ?m') rest = filter (due t m) rest"
      by (rule filter_cong) (simp_all add: due_def same)
    have r: "map (report t ?m') (filter (due t m) rest) = map (report t m) (filter (due t m) rest)"
      by (rule map_cong) (simp_all add: report_def same)
    have "fst (check_timeouts_loop t rest (acc @ [(n, a, int_ms ?e)]) ?m')
            = (acc @ [(n, a, int_ms ?e)]) @ map (report t ?m') (filter (due t ?m') rest)"
      by (rule Cons.IH [OF k' sub' rest_k rest_a])
    moreover have "due t m (n, a)" using True by (simp add: due_def)
    moreover have "report t m (n, a) = (n, a, int_ms ?e)" by (simp add: report_def)
    ultimately show ?thesis
      unfolding entry timeouts_loop_Cons using True by (simp add: f r)
  next
    case False
    have "fst (check_timeouts_loop t rest acc m) = acc @ map (report t m) (filter (due t m) rest)"
      by (rule Cons.IH [OF Cons.prems(1) rest_sub rest_k rest_a])
    moreover have "\<not> due t m (n, a)" using False by (simp add: due_def)
    ultimately show ?thesis
      unfolding entry timeouts_loop_Cons using False by simp
  qed
qed

lemma timeouts_exact:
  assumes "distinct (map fst (active_states m))" and "distinct (map snd (active_states m))"
  shows "fst (check_timeouts t m) = map (report t m) (filter (due t m) (active_states m))"
  using timeouts_loop_exact [OF assms(1) subset_refl assms(1) assms(2), of t "[]"]
  by (simp add: check_timeouts_def)


lemma timeouts_loop_active:
  assumes "distinct (map fst (active_states m))"
    and "set snap \<subseteq> set (active_states m)"
    and "distinct (map fst snap)"
    and "distinct (map snd snap)"
  shows "active_states (snd (check_timeouts_loop t snap acc m))
           = filter (\<lambda>e. fst e \<notin> fst ` set (filter (due t m) snap)) (active_states m) \<and>
         (\<forall>x. x \<notin> snd ` set (filter (due t m) snap) \<longrightarrow>
                heap (snd (check_timeouts_loop t snap acc m)) x = heap m x)"
  using assms
proof (induction snap arbitrary: acc m)
  case Nil
  then show ?case by simp
next
  case (Cons entry rest)
  obtain n a where entry: "entry = (n, a)" by (cases entry)
  have rest_sub: "set rest \<subseteq> set (active_states m)" using Cons.prems(2) by simp
  have rest_k: "distinct (map fst rest)" and rest_a: "distinct (map snd rest)"
    and n_rest: "n \<notin> fst ` set rest" and a_rest: "a \<notin> snd ` set rest"
    using Cons.prems(3,4) by (auto simp: entry)
  show ?case
  proof (cases "timed_out t (heap m a)")
    case True
    let ?e = "elapsed_of t (heap m a)"
    let ?m' = "deactivate_state n (TIMEOUT_after ?e) t m"
    let ?acc' = "acc @ [(n, a, int_ms ?e)]"
    have "(n, a) \<in> set (active_states m)" using Cons.prems(2) by (simp add: entry)
    with Cons.prems(1) have look: "map_of (active_states m) n = Some a" by simp
    note d = deactivate_present [OF look, of "TIMEOUT_after ?e" t]
    have k': "distinct (map fst (active_states ?m'))"
      using Cons.prems(1) by (simp add: d distinct_delete)
    have sub': "set rest \<subseteq> set (active_states ?m')"
      using rest_sub n_rest by (force simp: d AList.delete_eq)
    have same: "heap ?m' (snd e) = heap m (snd e)" if "e \<in> set rest" for e
      using that a_rest by (auto simp: d)
    have f: "filter (due t ?m') rest = filter (due t m) rest"
      by (rule filter_cong) (simp_all add: due_def same)
    have dn: "due t m (n, a)" using True by (simp add: due_def)
    note IH = Cons.IH [OF k' sub' rest_k rest_a, of ?acc', unfolded f]
    have A: "active_states (snd (check_timeouts_loop t rest ?acc' ?m'))
              = filter (\<lambda>e. fst e \<notin> fst ` set (filter (due t m) ((n, a) # rest))) (active_states m)"
      using IH dn by (auto simp: d AList.delete_eq intro: filter_cong)
    have B: "heap (snd (check_timeouts_loop t rest ?acc' ?m')) x = heap m x"
      if "x \<notin> snd ` set (filter (due t m) ((n, a) # rest))" for x
    proof -
      from that dn have "x \<noteq> a" and "x \<notin> snd ` set (filter (due t m) rest)" by auto
      with IH show ?thesis by (simp add: d)
    qed
    from A B show ?thesis
      unfolding entry timeouts_loop_Cons using True by simp
  next
    case False
    have dn: "\<not> due t m (n, a)" using False by (simp add: due_def)
    note IH = Cons.IH [OF Cons.prems(1) rest_sub rest_k rest_a, of acc]
    then show ?thesis
      unfolding entry timeouts_loop_Cons using False dn by simp
  qed
qed

lemma timeouts_loop_none_due:
  "\<forall>e \<in> set snap. \<not> due t m e \<Longrightarrow> check_timeouts_loop t snap acc m = (acc, m)"
proof (induction snap)
  case Nil
  then show ?case by simp
next
  case (Cons entry rest)
  obtain n a where entry: "entry = (n, a)" by (cases entry)
  from Cons.prems have "\<not> timed_out t (heap m a)" by (simp add: entry due_def)
  with Cons show ?case
    unfolding entry timeouts_loop_Cons by simp
qed

lemma keys_filter_due:
  assumes "distinct (map fst l)"
  shows "filter (\<lambda>e. fst e \<notin> fst ` set (filter P l)) l = filter (\<lambda>e. \<not> P e) l"
proof (rule filter_cong)
  fix e assume e: "e \<in> set l"
  from assms have inj: "inj_on fst (set l)" by (simp add: distinct_map)
  show "(fst e \<notin> fst ` set (filter P l)) = (\<not> P e)"
  proof
    assume "fst e \<notin> fst ` set (filter P l)"
    then show "\<not> P e" using e by force
  next
    assume np: "\<not> P e"
    show "fst e \<notin> fst ` set (filter P l)"
    proof
      assume "fst e \<in> fst ` set (filter P l)"
      then obtain e' where e': "e' \<in> set l" "P e'" "fst e' = fst e" by auto
      with inj e have "e' = e" by (auto dest: inj_onD)
      with e' np show False by simp
    qed
  qed
qed simp

lemma timeouts_active:
  assumes "distinct (map fst (active_states m))" and "distinct (map snd (active_states m))"
  shows "active_states (snd (check_timeouts t m)) = filter (\<lambda>e. \<not> due t m e) (active_states m)"
proof -
  have "active_states (snd (check_timeouts_loop t (active_states m) [] m))
          = filter (\<lambda>e. fst e \<notin> fst ` set (filter (due t m) (active_states m))) (active_states m)"
    by (rule timeouts_loop_active [OF assms(1) subset_refl assms(1) assms(2), THEN conjunct1])
  also have "\<dots> = filter (\<lambda>e. \<not> due t m e) (active_states m)"
    by (rule keys_filter_due [OF assms(1)])
  finally show ?thesis
    unfolding check_timeouts_def .
qed

lemma timeouts_same_time_again:
  assumes "distinct (map fst (active_states m))" and "distinct (map snd (active_states m))"
  shows "check_timeouts t (snd (check_timeouts t m)) = ([], snd (check_timeouts t m))"
proof -
  let ?m1 = "snd (check_timeouts t m)"
  have act: "active_states ?m1 = filter (\<lambda>e. \<not> due t m e) (active_states m)"
    using assms by (rule timeouts_active)
  have heap_same: "heap ?m1 x = heap m x" if "x \<notin> snd ` set (filter (due t m) (active_states m))" for x
    using timeouts_loop_active [OF assms(1) subset_refl assms(1) assms(2), THEN conjunct2,
              of t "[]"] that
    unfolding check_timeouts_def by blast
  have "\<not> due t ?m1 e" if e: "e \<in> set (active_states ?m1)" for e
  proof -
    from e act have in_m: "e \<in> set (active_states m)" and nd: "\<not> due t m e" by auto
    have "snd e \<notin> snd ` set (filter (due t m) (active_states m))"
    proof
      assume "snd e \<in> snd ` set (filter (due t m) (active_states m))"
      then obtain e' where e': "e' \<in> set (active_states m)" "due t m e'" "snd e' = snd e" by auto
      from assms(2) have "inj_on snd (set (active_states m))" by (simp add: distinct_map)
      with e' in_m have "e' = e" by (auto dest: inj_onD)
      with e' nd show False by simp
    qed
    then have "heap ?m1 (snd e) = heap m (snd e)" by (rule heap_same)
    with nd show ?thesis by (simp add: due_def)
  qed
  then have "\<forall>e \<in> set (active_states ?m1). \<not> due t ?m1 e" by blast
  then show ?thesis
    unfolding check_timeouts_def [of t ?m1] by (rule timeouts_loop_none_due)
qed

subsection \<open>Status\<close>

lemma int_ms_exceeds: "exceeds_ms e tmo \<Longrightarrow> tmo \<le> int_ms e"
  unfolding exceeds_ms_def int_ms_def by (auto split: if_splits) 

subsection \<open>Decoding and splitting into lines\<close>

lemma split_on_nonempty: "split_on c s \<noteq> []"
  by (induction s) auto

lemma split_on_length_gt1: "(Suc 0 < length (split_on c s)) = (c \<in> set s)"
proof (induction s)
  case Nil
  then show ?case by simp
next
  case (Cons x s)
  have "length (tl (split_on c s)) = length (split_on c s) - 1" by simp
  moreover have "length (split_on c s) > 0" using split_on_nonempty[of c s] by simp
  ultimately show ?case using Cons by auto
qed

lemma split_on_join:
  "concat (map (\<lambda>l. l @ [c]) (butlast (split_on c s))) @ last (split_on c s) = s"
proof (induction s)
  case Nil
  then show ?case by simp
next
  case (Cons x s)
  obtain l ls where ls: "split_on c s = l # ls"
    using split_on_nonempty[of c s] by (cases "split_on c s") auto
  show ?case
    using Cons by (auto simp: ls)
qed

lemma split_on_last_no_sep: "c \<notin> set (last (split_on c s))"
proof (induction s)
  case Nil
  then show ?case by simp
next
  case (Cons x s)
  obtain l ls where ls: "split_on c s = l # ls"
    using split_on_nonempty[of c s] by (cases "split_on c s") auto
  show ?case
    using Cons by (auto simp: ls)
qed

lemma split_on_last_empty: "(last (split_on c s) = []) = (s = [] \<or> last s = c)"
proof (induction s)
  case Nil
  then show ?case by simp
next
  case (Cons x s)
  obtain l ls where ls: "split_on c s = l # ls"
    using split_on_nonempty[of c s] by (cases "split_on c s") auto
  have "ls \<noteq> []" if "s \<noteq> []" "last s = c"
  proof -
    from that have "c \<in> set s" using last_in_set by blast
    then have "Suc 0 < length (split_on c s)" by (simp add: split_on_length_gt1)
    then show ?thesis by (auto simp: ls)
  qed
  then show ?case
    using Cons by (auto simp: ls)
qed

lemma split_on_no_sep_whole: "c \<notin> set s \<Longrightarrow> split_on c s = [s]"
  by (induction s) auto

lemma utf8_decode_concat: "utf8_decode bs = Some cps \<Longrightarrow> concat cps = bs"
proof (induction bs arbitrary: cps rule: utf8_decode.induct)
  case 1
  then show ?case by simp
next
  case (2 b bs)
  let ?n = "seq_len (of_char b)"
  from "2.prems" obtain rest where
    rest: "utf8_decode (drop (?n - 1) bs) = Some rest"
    and cps: "cps = (b # take (?n - 1) bs) # rest"
    and ok: "\<not> (?n = 0 \<or> length bs < ?n - 1)"
      "\<not> (1 < ?n \<and> \<not> (second_ok (of_char b) (of_char (hd (take (?n - 1) bs))) \<and>
                               list_all is_continuation (tl (take (?n - 1) bs))))"
    by (auto simp: Let_def split: if_splits)
  from "2.IH" [OF refl refl ok rest] have "concat rest = drop (?n - 1) bs" .
  then show ?case by (simp add: cps)
qed

lemma universal_newlines_no_newline:
  "newline \<notin> set (universal_newlines cs) \<Longrightarrow> universal_newlines cs = cs"
  by (induction cs rule: universal_newlines.induct) (auto split: if_splits)

lemma universal_newlines_suffix:
  "universal_newlines cs = xs @ ys \<Longrightarrow> newline \<notin> set ys \<Longrightarrow> \<exists>zs. cs = zs @ ys"
proof (induction cs arbitrary: xs rule: universal_newlines.induct)
  case 1
  then show ?case by simp
next
  case (2 c)
  then show ?case
    by (cases xs) (auto split: if_splits)
next
  case (3 c d cs)
  show ?case
  proof (cases xs)
    case Nil
    with "3.prems" have "newline \<notin> set (universal_newlines (c # d # cs))" by simp
    then have "universal_newlines (c # d # cs) = c # d # cs"
      by (rule universal_newlines_no_newline)
    with "3.prems" Nil show ?thesis by simp
  next
    case (Cons x xs')
    show ?thesis
    proof (cases "c = carriage_return")
      case cr: True
      show ?thesis
      proof (cases "d = newline")
        case True
        with cr "3.prems" Cons have "universal_newlines cs = xs' @ ys" by simp
        from "3.IH"(1) [OF cr True this "3.prems"(2)] obtain zs where "cs = zs @ ys" ..
        then have "c # d # cs = (c # d # zs) @ ys" by simp
        then show ?thesis ..
      next
        case False
        with cr "3.prems" Cons have "universal_newlines (d # cs) = xs' @ ys" by simp
        from "3.IH"(2) [OF cr False this "3.prems"(2)] obtain zs where "d # cs = zs @ ys" ..
        then have "c # d # cs = (c # zs) @ ys" by simp
        then show ?thesis ..
      qed
    next
      case False
      with "3.prems" Cons have "universal_newlines (d # cs) = xs' @ ys" by simp
      from "3.IH"(3) [OF False this "3.prems"(2)] obtain zs where "d # cs = zs @ ys" ..
      then have "c # d # cs = (c # zs) @ ys" by simp
      then show ?thesis ..
    qed
  qed
qed

lemma universal_newlines_Nil: "(universal_newlines cs = []) = (cs = [])"
  by (induction cs rule: universal_newlines.induct) auto

lemma utf8_decode_Nil: "utf8_decode bs = Some [] \<Longrightarrow> bs = []"
  using utf8_decode_concat by fastforce

lemma single_bytes_concat: "\<forall>c \<in> set cs. length c = 1 \<Longrightarrow> length (concat cs) = length cs"
  by (induction cs) auto

section \<open>Properties\<close>

text \<open>
  C1. Claimed: the timeout callback fired by a sweep carries the target of the step that
  was pending when the timeout occurred; for rule \<open>R\<close>, after \<open>A\<close> and then \<open>B\<close>, the
  callback names \<open>C\<close>. The code at that input: \<open>A\<close> at 0 ms, \<open>B\<close> at 50 ms, sweep at
  300 ms. The sweep removes the instance and appends the TIMEOUT entry with 250 ms
  elapsed since the transition, but \<open>_deactivate_state\<close> has set the index of the shared
  object back to 0 before the notifier reads it, and the callback names the first step's
  target \<open>B\<close> and its threshold 100 ms.
\<close>

theorem C1_timeout_callback_after_A_B:
  "monitor_check_timeouts 300000
     (snd (process_events [(''A'', 0), (''B'', 50000)] ([], machine_R)))
   = ([StateTimeout ''R'' ''A'' (Some ''B'') (Some 100) 250 [] 300000],
      \<lparr>heap = (\<lambda>_. rule_R)(0 := rule_R),
       states = [(''R'', 0)],
       active_states = [],
       state_history = [(''R'', ACTIVATED_by ''A'', 0), (''R'', TRANSITION_to ''C'', 50000),
                        (''R'', TIMEOUT_after 250000, 300000)]\<rparr>)"
  unfolding machine_R_def rule_R_def
  by (simp add: engine_defs)

text \<open>
  C2. Claimed: a rule whose start node is the target of its single step never completes.
  The code on the first occurrence of \<open>X\<close> for the rule \<open>H\<close>: the trigger loop activates
  the instance, and the advance loop of the same event finds \<open>X\<close> to be the target of the
  pending step, completes the rule, removes the instance and sends the completion
  notification.
\<close>

theorem C2_heartbeat_completes_on_first_occurrence:
  "check_state_machine_rules ''X'' 0 machine_H
   = ([StateCompleted ''H'' ''X'' ''X'' [] 0],
      \<lparr>heap = (\<lambda>_. rule_H)(0 := rule_H),
       states = [(''H'', 0)],
       active_states = [],
       state_history = [(''H'', ACTIVATED_by ''X'', 0), (''H'', COMPLETED_by ''X'', 0)]\<rparr>)"
  unfolding machine_H_def rule_H_def
  by (simp add: engine_defs)

text \<open>
  C3, as stated, fails: new content that is a single unterminated line is returned at
  once (first conjunct), and a fragment that was held back after a complete line is
  returned by the next poll although nothing has been appended, so that the rest of the
  line arrives later as a line of its own (second to fourth conjunct).
\<close>

theorem C3_unterminated_line_is_returned:
  "read_new_log_lines ''abc'' 0 = Inr ([ascii ''abc''], 3) \<and>
   read_new_log_lines (''ok'' @ [CHR 0x0A] @ ''abc'') 0 = Inr ([ascii ''ok''], 3) \<and>
   read_new_log_lines (''ok'' @ [CHR 0x0A] @ ''abc'') 3 = Inr ([ascii ''abc''], 6) \<and>
   read_new_log_lines (''ok'' @ [CHR 0x0A] @ ''abcdef'' @ [CHR 0x0A]) 6 = Inr ([ascii ''def''], 10)"
  by (simp add: reader_defs)

text \<open>
  The put-back subtracts a number of code points from a byte offset. After the line
  \<open>ok\<close> and a fragment of two characters of three bytes each, the position is left at
  byte 7, in the middle of the first character (the fragment starts at byte 3), and the
  next poll cannot decode what it reads.
\<close>

lemma put_back_counts_code_points:
  "read_new_log_lines (''ok'' @ [CHR 0x0A] @ two_wide_characters) 0 = Inr ([ascii ''ok''], 7) \<and>
   read_new_log_lines (''ok'' @ [CHR 0x0A] @ two_wide_characters) 7 = Inl UnicodeDecodeError"
  by (simp add: reader_defs two_wide_characters_def)

text \<open>
  C3, amended. For a poll whose new bytes decode, to a text that does not end in a
  newline: if the text holds a newline, the call returns the non-blank ones among the
  terminated lines, and the trailing fragment (non-empty, without a newline, the rest of
  the text after the terminated lines) is not among the lines examined; if moreover the
  fragment is ASCII (every code point one byte), the position is left at the start of the
  fragment, so that the next poll reads it again. If the text holds no newline at all, it
  is itself the one line examined and the position is left at the end of the file.
\<close>

theorem C3_fragment_held_back_after_a_newline:
  assumes pos: "current_position < length content"
    and dec: "utf8_decode (drop current_position content) = Some decoded"
    and unterminated: "\<not> endswith_newline (universal_newlines decoded)"
  shows "(let new_content = universal_newlines decoded;
              lines = split_on newline new_content;
              fragment = last lines
          in (newline \<in> set new_content \<longrightarrow>
                (\<exists>p. read_new_log_lines content current_position
                        = Inr (filter strip_nonempty (butlast lines), p) \<and>
                     ((\<forall>c \<in> set fragment. length c = 1) \<longrightarrow> drop p content = concat fragment)) \<and>
                fragment \<noteq> [] \<and>
                newline \<notin> set fragment \<and>
                new_content = concat (map (\<lambda>l. l @ [newline]) (butlast lines)) @ fragment) \<and>
             (newline \<notin> set new_content \<longrightarrow>
                read_new_log_lines content current_position
                  = Inr (filter strip_nonempty [new_content], length content)))"
proof -
  let ?raw = "drop current_position content"
  let ?nc = "universal_newlines decoded"
  let ?lines = "split_on newline ?nc"
  let ?frag = "last ?lines"
  have raw: "?raw \<noteq> []" using pos by simp
  have decoded: "decoded \<noteq> []" using dec raw utf8_decode_Nil by blast
  then have nc: "?nc \<noteq> []" by (simp add: universal_newlines_Nil)
  have join: "?nc = concat (map (\<lambda>l. l @ [newline]) (butlast ?lines)) @ ?frag"
    by (simp add: split_on_join)
  have frag_ne: "?frag \<noteq> []"
    using unterminated nc by (simp add: split_on_last_empty endswith_newline_def)
  have no_nl: "newline \<notin> set ?frag"
    by (rule split_on_last_no_sep)
  from universal_newlines_suffix [OF join no_nl] obtain zs where zs: "decoded = zs @ ?frag" ..
  have bytes: "?raw = concat zs @ concat ?frag"
    using utf8_decode_concat [OF dec] zs by (metis concat_append)
  have rewind: "drop (length content - length ?frag) content = concat ?frag"
    if single: "\<forall>c \<in> set ?frag. length c = 1"
  proof -
    have len: "length (concat ?frag) = length ?frag"
      using single by (rule single_bytes_concat)
    have "length ?raw = length (concat zs) + length ?frag"
      using arg_cong [OF bytes, of length] len by simp
    then have off: "length content - length ?frag = current_position + length (concat zs)"
      using pos by simp
    have "drop (current_position + length (concat zs)) content = drop (length (concat zs)) ?raw"
      by (simp add: add.commute)
    also have "\<dots> = concat ?frag"
      by (simp add: bytes)
    finally show ?thesis by (simp add: off)
  qed
  have A: "newline \<in> set ?nc \<Longrightarrow>
            read_new_log_lines content current_position
              = Inr (filter strip_nonempty (butlast ?lines), length content - length ?frag)"
    using pos dec unterminated nc
    by (simp add: read_new_log_lines_def Let_def split_on_length_gt1)
  have B: "newline \<notin> set ?nc \<Longrightarrow>
            read_new_log_lines content current_position
              = Inr (filter strip_nonempty [?nc], length content)"
    using pos dec unterminated nc
    by (simp add: read_new_log_lines_def Let_def split_on_length_gt1 split_on_no_sep_whole)
  have A': "\<exists>p. read_new_log_lines content current_position
                  = Inr (filter strip_nonempty (butlast ?lines), p) \<and>
               ((\<forall>c \<in> set ?frag. length c = 1) \<longrightarrow> drop p content = concat ?frag)"
    if "newline \<in> set ?nc"
    using A [OF that] rewind by blast
  show ?thesis
    unfolding Let_def
    using A' B join frag_ne no_nl by blast
qed


theorem C3_fragment_held_back_witness:
  "0 < length (''ok'' @ [CHR 0x0A] @ ''abc'') \<and>
   utf8_decode (drop 0 (''ok'' @ [CHR 0x0A] @ ''abc'')) = Some (ascii (''ok'' @ [CHR 0x0A] @ ''abc'')) \<and>
   \<not> endswith_newline (universal_newlines (ascii (''ok'' @ [CHR 0x0A] @ ''abc''))) \<and>
   (\<exists>p. read_new_log_lines (''ok'' @ [CHR 0x0A] @ ''abc'') 0 = Inr ([ascii ''ok''], p) \<and>
        drop p (''ok'' @ [CHR 0x0A] @ ''abc'') = ''abc'')"
proof -
  let ?C = "''ok'' @ [CHR 0x0A] @ ''abc''"
  have h1: "0 < length ?C" by simp
  have h2: "utf8_decode (drop 0 ?C) = Some (ascii ?C)"
    by (simp add: reader_defs)
  have un: "universal_newlines (ascii ?C) = ascii ?C"
    by (simp add: reader_defs)
  have h3: "\<not> endswith_newline (universal_newlines (ascii ?C))"
    unfolding un by (simp add: reader_defs)
  have nl: "newline \<in> set (universal_newlines (ascii ?C))"
    unfolding un by (simp add: reader_defs)
  have sp: "split_on newline (universal_newlines (ascii ?C)) = [ascii ''ok'', ascii ''abc'']"
    unfolding un by (simp add: reader_defs)
  have ne: "filter strip_nonempty [ascii ''ok''] = [ascii ''ok'']"
    by (simp add: reader_defs)
  have single: "\<forall>c \<in> set (ascii ''abc''). length c = 1"
    by (simp add: ascii_def)
  have bytes: "concat (ascii ''abc'') = ''abc''"
    by (simp add: ascii_def)
  note c = C3_fragment_held_back_after_a_newline [OF h1 h2 h3, unfolded Let_def sp]
  from c nl obtain p where
    p: "read_new_log_lines ?C 0 = Inr (filter strip_nonempty (butlast [ascii ''ok'', ascii ''abc'']), p)"
    and d: "(\<forall>c \<in> set (last [ascii ''ok'', ascii ''abc'']). length c = 1) \<longrightarrow>
              drop p ?C = concat (last [ascii ''ok'', ascii ''abc''])"
    by blast
  from p ne have p': "read_new_log_lines ?C 0 = Inr ([ascii ''ok''], p)" by simp
  from d single bytes have d': "drop p ?C = ''abc''" by simp
  from h1 h2 h3 p' d' show ?thesis by blast
qed

text \<open>
  C4, as stated, fails: the completion notification holds no elapsed time. Two runs of
  rule \<open>R\<close> that complete at the same instant, one 150 ms and one 50 ms after the
  original activation, send the same notification.
\<close>

theorem C4_completion_callback_without_elapsed:
  "fst (process_events [(''A'', 0), (''B'', 50000), (''C'', 150000)] ([], machine_R))
     = [StateCompleted ''R'' ''A'' ''C'' [] 150000] \<and>
   fst (process_events [(''A'', 100000), (''B'', 120000), (''C'', 150000)] ([], machine_R))
     = [StateCompleted ''R'' ''A'' ''C'' [] 150000]"
  unfolding machine_R_def rule_R_def
  by (simp add: engine_defs)

text \<open>
  C4, amended. When the advance loop reaches an active instance whose pending step is its
  last one and whose target is the observed node, the instance is removed from the active
  set, its object is set back to inactive with index 0 and no activation time,
  \<open>COMPLETED\<close> is appended to the history, and one completion notification is sent; it
  carries the rule name, the rule's start node, the completing node, the rule's
  description and the time of sending, and no elapsed time.
\<close>

theorem C4_completion_removes_and_notifies:
  assumes "map_of (active_states m) n = Some a"
    and "target_node (transitions (heap m a) ! current_transition_index (heap m a)) = node"
    and "Suc (current_transition_index (heap m a)) = length (transitions (heap m a))"
  shows "fst (advance_step node now (n, a) (sent, m)) =
           sent @ [StateCompleted n (start_node (heap m a)) node (description (heap m a)) now] \<and>
         (let m' = snd (advance_step node now (n, a) (sent, m)) in
            map_of (active_states m') n = None \<and>
            active_states m' = AList.delete n (active_states m) \<and>
            state_history m' = state_history m @ [(n, COMPLETED_by node, now)] \<and>
            heap m' a = (heap m a)\<lparr>is_active := False, last_activation_time := None,
                                    current_transition_index := 0\<rparr>)"
proof -
  from assms(3) have "current_transition_index (heap m a) < length (transitions (heap m a))"
    by simp
  with assms show ?thesis
    by (auto simp: advance_step_def check_transition_def deactivate_state_def Let_def
          send_state_completed_def delete_conv')
qed

theorem C4_completion_witness:
  "map_of (active_states machine_R_AB) ''R'' = Some 0 \<and>
   fst (advance_step ''C'' 150000 (''R'', 0) ([], machine_R_AB))
     = [StateCompleted ''R'' ''A'' ''C'' [] 150000] \<and>
   active_states (snd (advance_step ''C'' 150000 (''R'', 0) ([], machine_R_AB))) = [] \<and>
   state_history (snd (advance_step ''C'' 150000 (''R'', 0) ([], machine_R_AB)))
     = [(''R'', ACTIVATED_by ''A'', 0), (''R'', TRANSITION_to ''C'', 50000),
        (''R'', COMPLETED_by ''C'', 150000)]"
proof -
  have h1: "map_of (active_states machine_R_AB) ''R'' = Some 0"
    by (simp add: machine_R_AB_eq)
  have h2: "target_node (transitions (heap machine_R_AB 0)
              ! current_transition_index (heap machine_R_AB 0)) = ''C''"
    by (simp add: machine_R_AB_eq rule_R_def)
  have h3: "Suc (current_transition_index (heap machine_R_AB 0))
              = length (transitions (heap machine_R_AB 0))"
    by (simp add: machine_R_AB_eq rule_R_def)
  from C4_completion_removes_and_notifies [OF h1 h2 h3, of 150000 "[]"] h1
  show ?thesis by (simp add: Let_def machine_R_AB_eq rule_R_def AList.delete_eq)
qed
text \<open>
  C5, as stated, fails: processing \<open>A\<close> for the inactive rule \<open>R\<close> creates the instance
  and appends \<open>ACTIVATED\<close>, and no notification at all is sent.
\<close>

theorem C5_activation_fires_no_callback:
  "check_state_machine_rules ''A'' 0 machine_R
   = ([],
      \<lparr>heap = (\<lambda>_. rule_R)(0 := rule_R\<lparr>is_active := True, last_activation_time := Some 0\<rparr>),
       states = [(''R'', 0)],
       active_states = [(''R'', 0)],
       state_history = [(''R'', ACTIVATED_by ''A'', 0)]\<rparr>)"
  unfolding machine_R_def rule_R_def
  by (simp add: engine_defs)

text \<open>
  C5, amended. When \<open>activate_state\<close> is called with the start node of a registered rule
  whose object is not flagged active, it returns true, sets the object to active with
  index 0 and activation time \<open>now\<close>, enters it in the active set under the rule's name
  and appends \<open>ACTIVATED\<close> to the history. The notifier is not called for an activation:
  every notification sent while an event is processed is a completion notification.
\<close>

theorem C5_activation_creates_instance:
  assumes "map_of (states m) n = Some a"
    and "start_node (heap m a) = node"
    and "\<not> is_active (heap m a)"
  shows "fst (activate_state n node now m) \<and>
     (let m' = snd (activate_state n node now m) in
        heap m' = (heap m)(a := (heap m a)\<lparr>is_active := True, last_activation_time := Some now,
                                             current_transition_index := 0\<rparr>) \<and>
        current_transition_index (heap m' a) = 0 \<and>
        last_activation_time (heap m' a) = Some now \<and>
        map_of (active_states m') n = Some a \<and>
        states m' = states m \<and>
        state_history m' = state_history m @ [(n, ACTIVATED_by node, now)]) \<and>
     list_all is_completion (fst (check_state_machine_rules node now m))"
  using assms by (simp add: activate_state_def Let_def update_conv' event_only_completions)

theorem C5_activation_witness:
  "map_of (states machine_R) ''R'' = Some 0 \<and>
   \<not> is_active (heap machine_R 0) \<and>
   fst (activate_state ''R'' ''A'' 0 machine_R) \<and>
   map_of (active_states (snd (activate_state ''R'' ''A'' 0 machine_R))) ''R'' = Some 0 \<and>
   state_history (snd (activate_state ''R'' ''A'' 0 machine_R)) = [(''R'', ACTIVATED_by ''A'', 0)]"
proof -
  have h1: "map_of (states machine_R) ''R'' = Some 0"
    by (simp add: machine_R_def rule_R_def add_state_def init_machine_def)
  have h2: "start_node (heap machine_R 0) = ''A''"
    by (simp add: machine_R_def rule_R_def add_state_def init_machine_def)
  have h3: "\<not> is_active (heap machine_R 0)"
    by (simp add: machine_R_def rule_R_def add_state_def init_machine_def)
  have h4: "state_history machine_R = []"
    by (simp add: machine_R_def add_state_def init_machine_def)
  from C5_activation_creates_instance [OF h1 h2 h3, of 0] h1 h3 h4
  show ?thesis by (simp add: Let_def)
qed

text \<open>
  C6. When \<open>activate_state\<close> is called with the start node of a registered rule whose
  object is flagged active, it returns true and changes nothing but the activation time of
  that object, which becomes \<open>now\<close> (the elapsed time is 0 again), and the history, which
  gains a \<open>RESET\<close> entry: the index is as before, the active set is as before, and, as
  for every event, the only notifications sent are completion notifications.
\<close>

theorem C6_reset_in_place:
  assumes "map_of (states m) n = Some a"
    and "start_node (heap m a) = node"
    and "is_active (heap m a)"
  shows "fst (activate_state n node now m) \<and>
     (let m' = snd (activate_state n node now m) in
        heap m' = (heap m)(a := (heap m a)\<lparr>last_activation_time := Some now\<rparr>) \<and>
        map_option (elapsed_us now) (last_activation_time (heap m' a)) = Some 0 \<and>
        current_transition_index (heap m' a) = current_transition_index (heap m a) \<and>
        active_states m' = active_states m \<and>
        states m' = states m \<and>
        state_history m' = state_history m @ [(n, RESET_by node, now)]) \<and>
     list_all is_completion (fst (check_state_machine_rules node now m))"
  using assms by (simp add: activate_state_def Let_def elapsed_us_def event_only_completions)

theorem C6_reset_witness:
  "map_of (states machine_R_AB) ''R'' = Some 0 \<and>
   is_active (heap machine_R_AB 0) \<and>
   fst (activate_state ''R'' ''A'' 80000 machine_R_AB) \<and>
   last_activation_time (heap (snd (activate_state ''R'' ''A'' 80000 machine_R_AB)) 0) = Some 80000 \<and>
   current_transition_index (heap (snd (activate_state ''R'' ''A'' 80000 machine_R_AB)) 0) = 1 \<and>
   active_states (snd (activate_state ''R'' ''A'' 80000 machine_R_AB)) = [(''R'', 0)] \<and>
   state_history (snd (activate_state ''R'' ''A'' 80000 machine_R_AB))
     = [(''R'', ACTIVATED_by ''A'', 0), (''R'', TRANSITION_to ''C'', 50000),
        (''R'', RESET_by ''A'', 80000)]"
proof -
  have h1: "map_of (states machine_R_AB) ''R'' = Some 0"
    by (simp add: machine_R_AB_eq)
  have h2: "start_node (heap machine_R_AB 0) = ''A''"
    by (simp add: machine_R_AB_eq rule_R_def)
  have h3: "is_active (heap machine_R_AB 0)"
    by (simp add: machine_R_AB_eq)
  from C6_reset_in_place [OF h1 h2 h3, of 80000] h1 h3
  show ?thesis by (simp add: Let_def machine_R_AB_eq rule_R_def)
qed

text \<open>
  C7. In every reachable state of the engine the active set holds each rule name at most
  once.
\<close>

theorem C7_one_instance_per_rule: "reachable m \<Longrightarrow> distinct (map fst (active_states m))"
proof (induction rule: reachable.induct)
  case (reach_init h)
  then show ?case by (simp add: init_machine_def)
next
  case (reach_add m a)
  then show ?case by (simp add: add_state_def)
next
  case (reach_activate m state_name node_name t)
  then show ?case by (simp add: activate_distinct)
next
  case (reach_transition m state_name node_name t)
  then show ?case by (simp add: transition_distinct)
next
  case (reach_timeouts m t)
  then show ?case by (simp add: check_timeouts_def timeouts_loop_distinct)
next
  case (reach_deactivate m state_name reason t)
  then show ?case by (simp add: deactivate_distinct)
next
  case (reach_event m node_name t)
  then show ?case by (simp add: event_distinct)
next
  case (reach_sweep m t)
  then show ?case by (simp add: sweep_distinct)
qed

theorem C7_one_instance_witness:
  "reachable machine_R_A \<and> distinct (map fst (active_states machine_R_A)) \<and>
   active_states machine_R_A = [(''R'', 0)]"
proof -
  have "reachable machine_R"
    unfolding machine_R_def by (rule reach_add, rule reach_init)
  then have "reachable (snd (check_state_machine_rules ''A'' 0 machine_R))"
    by (rule reach_event)
  then have r: "reachable machine_R_A"
    by (simp add: machine_R_A_def split: prod.splits)
  from C7_one_instance_per_rule [OF r] r show ?thesis
    by (simp add: machine_R_A_eq)
qed

text \<open>
  C8. From a state whose active set holds each rule name once, two sweeps in succession, at
  any two times, report no rule twice: the names reported by the two sweeps together are
  distinct, at the level of \<open>check_timeouts\<close> and at the level of the notifications the
  monitor sends, and every rule the first sweep reports is absent from the active set that
  the second sweep starts from. When moreover the entries of the active set are distinct
  objects, the first sweep reports every entry whose object is timed out, with its elapsed
  time, and nothing else, the monitor sends one notification for each of them, the active
  set it leaves holds the other entries, and a second sweep at the same time reports
  nothing and changes nothing.
\<close>

theorem C8_sweep_reports_once:
  assumes "distinct (map fst (active_states m))"
  shows "distinct (map fst (fst (check_timeouts t1 m) @ fst (check_timeouts t2 (snd (check_timeouts t1 m))))) \<and>
         distinct (map notification_rule
            (fst (monitor_check_timeouts t1 m) @
             fst (monitor_check_timeouts t2 (snd (monitor_check_timeouts t1 m))))) \<and>
         fst ` set (fst (check_timeouts t1 m)) \<inter> fst ` set (active_states (snd (check_timeouts t1 m))) = {} \<and>
         (distinct (map snd (active_states m)) \<longrightarrow>
            fst (check_timeouts t1 m) = map (report t1 m) (filter (due t1 m) (active_states m)) \<and>
            map notification_rule (fst (monitor_check_timeouts t1 m))
              = map fst (filter (due t1 m) (active_states m)) \<and>
            active_states (snd (check_timeouts t1 m))
              = filter (\<lambda>e. \<not> due t1 m e) (active_states m) \<and>
            check_timeouts t1 (snd (check_timeouts t1 m)) = ([], snd (check_timeouts t1 m)))"
proof -
  let ?r1 = "check_timeouts t1 m"
  let ?r2 = "check_timeouts t2 (snd ?r1)"
  have d1: "distinct (map fst (fst ?r1))"
    using assms by (rule timeouts_names_distinct)
  have "distinct (map fst (active_states (snd ?r1)))"
    using assms by (simp add: check_timeouts_def timeouts_loop_distinct)
  then have d2: "distinct (map fst (fst ?r2))"
    by (rule timeouts_names_distinct)
  have gone: "fst ` set (fst ?r1) \<inter> fst ` set (active_states (snd ?r1)) = {}"
    by (rule timeouts_removed)
  have "fst ` set (fst ?r2) \<subseteq> fst ` set (active_states (snd ?r1))"
    by (rule timeouts_keys_subset)
  with gone have dj: "fst ` set (fst ?r1) \<inter> fst ` set (fst ?r2) = {}"
    by blast
  have both: "distinct (map fst (fst ?r1 @ fst ?r2))"
    using d1 d2 dj by simp
  then have sent: "distinct (map notification_rule
            (fst (monitor_check_timeouts t1 m) @
             fst (monitor_check_timeouts t2 (snd (monitor_check_timeouts t1 m)))))"
    by (simp add: monitor_timeouts_rules monitor_timeouts_machine)
  have exact: "fst ?r1 = map (report t1 m) (filter (due t1 m) (active_states m)) \<and>
            map notification_rule (fst (monitor_check_timeouts t1 m))
              = map fst (filter (due t1 m) (active_states m)) \<and>
            active_states (snd ?r1) = filter (\<lambda>e. \<not> due t1 m e) (active_states m) \<and>
            check_timeouts t1 (snd ?r1) = ([], snd ?r1)"
    if objs: "distinct (map snd (active_states m))"
  proof -
    have e1: "fst ?r1 = map (report t1 m) (filter (due t1 m) (active_states m))"
      using assms objs by (rule timeouts_exact)
    have "map fst (map (report t1 m) (filter (due t1 m) (active_states m)))
            = map fst (filter (due t1 m) (active_states m))"
      by (simp add: report_def)
    with e1 have e2: "map notification_rule (fst (monitor_check_timeouts t1 m))
              = map fst (filter (due t1 m) (active_states m))"
      by (simp add: monitor_timeouts_rules)
    have e3: "active_states (snd ?r1) = filter (\<lambda>e. \<not> due t1 m e) (active_states m)"
      using assms objs by (rule timeouts_active)
    have e4: "check_timeouts t1 (snd ?r1) = ([], snd ?r1)"
      using assms objs by (rule timeouts_same_time_again)
    from e1 e2 e3 e4 show ?thesis by blast
  qed
  from both sent gone exact show ?thesis by blast
qed

theorem C8_sweep_witness:
  "distinct (map fst (active_states machine_RQ_A)) \<and>
   distinct (map snd (active_states machine_RQ_A)) \<and>
   fst (check_timeouts 400000 machine_RQ_A) = [(''R'', 0, 400), (''Q'', 1, 400)] \<and>
   active_states (snd (check_timeouts 400000 machine_RQ_A)) = [] \<and>
   fst (check_timeouts 150000 machine_RQ_A) = [(''R'', 0, 150)] \<and>
   active_states (snd (check_timeouts 150000 machine_RQ_A)) = [(''Q'', 1)] \<and>
   fst (check_timeouts 150000 (snd (check_timeouts 150000 machine_RQ_A))) = [] \<and>
   distinct (map fst (fst (check_timeouts 150000 machine_RQ_A) @
                      fst (check_timeouts 400000 (snd (check_timeouts 150000 machine_RQ_A)))))"
proof -
  have h: "distinct (map fst (active_states machine_RQ_A))"
    by (simp add: machine_RQ_A_eq)
  have o: "distinct (map snd (active_states machine_RQ_A))"
    by (simp add: machine_RQ_A_eq)
  have due_R: "due t machine_RQ_A (''R'', 0) = (100000 < t)" for t
    by (simp add: due_def timed_out_def machine_RQ_A_eq rule_R_def elapsed_us_def exceeds_ms_def)
  have due_Q: "due t machine_RQ_A (''Q'', Suc 0) = (300000 < t)" for t
    by (simp add: due_def timed_out_def machine_RQ_A_eq rule_Q_def elapsed_us_def exceeds_ms_def)
  have rep_R: "report t machine_RQ_A (''R'', 0) = (''R'', 0, int_ms t)" for t
    by (simp add: report_def elapsed_of_def machine_RQ_A_eq elapsed_us_def)
  have rep_Q: "report t machine_RQ_A (''Q'', Suc 0) = (''Q'', Suc 0, int_ms t)" for t
    by (simp add: report_def elapsed_of_def machine_RQ_A_eq elapsed_us_def)
  have act: "active_states machine_RQ_A = [(''R'', 0), (''Q'', 1)]"
    by (simp add: machine_RQ_A_eq)
  note late = C8_sweep_reports_once [OF h, of 400000 400000, THEN conjunct2, THEN conjunct2,
                THEN conjunct2, THEN mp, OF o]
  note early = C8_sweep_reports_once [OF h, of 150000 150000, THEN conjunct2, THEN conjunct2,
                THEN conjunct2, THEN mp, OF o]
  note twice = C8_sweep_reports_once [OF h, of 150000 400000, THEN conjunct1]
  have l1: "fst (check_timeouts 400000 machine_RQ_A) = [(''R'', 0, 400), (''Q'', 1, 400)]"
    using late by (simp add: act due_R due_Q rep_R rep_Q int_ms_def)
  have l2: "active_states (snd (check_timeouts 400000 machine_RQ_A)) = []"
    using late by (simp add: act due_R due_Q)
  have e1: "fst (check_timeouts 150000 machine_RQ_A) = [(''R'', 0, 150)]"
    using early by (simp add: act due_R due_Q rep_R rep_Q int_ms_def)
  have e2: "active_states (snd (check_timeouts 150000 machine_RQ_A)) = [(''Q'', 1)]"
    using early by (simp add: act due_R due_Q)
  have e3: "fst (check_timeouts 150000 (snd (check_timeouts 150000 machine_RQ_A))) = []"
    using early by simp
  from h o l1 l2 e1 e2 e3 twice show ?thesis by blast
qed

text \<open>
  C9. An event whose node is the start node of no registered rule and the pending target
  of no active instance changes nothing: the machine after the event (store, active set,
  history) is the machine before it, and no notification is sent.
\<close>

theorem C9_unrelated_event_changes_nothing:
  assumes "\<forall>(n, a) \<in> set (states m). start_node (heap m a) \<noteq> node"
    and "\<forall>(n, a) \<in> set (active_states m).
             current_transition_index (heap m a) < length (transitions (heap m a)) \<longrightarrow>
             target_node (transitions (heap m a) ! current_transition_index (heap m a)) \<noteq> node"
  shows "check_state_machine_rules node t m = ([], m)"
  using assms
  by (simp add: check_state_machine_rules_def Let_def get_active_states_def
        trigger_loop_other advance_loop_other)

theorem C9_unrelated_event_witness:
  "check_state_machine_rules ''Z'' 20000 machine_R_AB = ([], machine_R_AB) \<and>
   check_state_machine_rules ''B'' 20000 machine_R_AB = ([], machine_R_AB)"
proof -
  have h1: "\<forall>(n, a) \<in> set (states machine_R_AB). start_node (heap machine_R_AB a) \<noteq> node"
    if "node \<noteq> ''A''" for node
    using that by (simp add: machine_R_AB_eq rule_R_def)
  have h2: "\<forall>(n, a) \<in> set (active_states machine_R_AB).
             current_transition_index (heap machine_R_AB a) < length (transitions (heap machine_R_AB a)) \<longrightarrow>
             target_node (transitions (heap machine_R_AB a) ! current_transition_index (heap machine_R_AB a)) \<noteq> node"
    if "node \<noteq> ''C''" for node
    using that by (simp add: machine_R_AB_eq rule_R_def)
  have z: "check_state_machine_rules ''Z'' 20000 machine_R_AB = ([], machine_R_AB)"
    by (rule C9_unrelated_event_changes_nothing [OF h1 h2]) simp_all
  have b: "check_state_machine_rules ''B'' 20000 machine_R_AB = ([], machine_R_AB)"
    by (rule C9_unrelated_event_changes_nothing [OF h1 h2]) simp_all
  from z b show ?thesis by simp
qed

text \<open>
  C10. Whatever \<open>get_state_status\<close> reports as remaining time is not negative. For a
  registered rule whose object is active, with a pending step and an activation time, it
  reports the elapsed milliseconds \<open>e\<close> (truncated) and the remaining time
  \<open>max 0 (timeout_ms - e)\<close>, which is 0 when the elapsed time exceeds the timeout of the
  pending step.
\<close>

theorem C10_remaining_never_negative:
  assumes "get_state_status n now m = Some st"
  shows "(\<forall>r. status_remaining_ms st = Some r \<longrightarrow> 0 \<le> r) \<and>
         (\<forall>a t. map_of (states m) n = Some a \<and> is_active (heap m a) \<and>
                 current_transition_index (heap m a) < length (transitions (heap m a)) \<and>
                 last_activation_time (heap m a) = Some t \<longrightarrow>
            (let tmo = timeout_ms (transitions (heap m a) ! current_transition_index (heap m a));
                 e = int_ms (elapsed_us now t)
             in status_elapsed_ms st = Some e \<and>
                status_remaining_ms st = Some (max 0 (tmo - e)) \<and>
                (exceeds_ms (elapsed_us now t) tmo \<longrightarrow> status_remaining_ms st = Some 0)))"
  using assms
  by (auto simp: get_state_status_def Let_def dest: int_ms_exceeds split: option.splits if_splits)

theorem C10_remaining_witness:
  "map_option status_elapsed_ms (get_state_status ''R'' 150700 machine_R_A) = Some (Some 150) \<and>
   map_option status_remaining_ms (get_state_status ''R'' 150700 machine_R_A) = Some (Some 0) \<and>
   map_option status_remaining_ms (get_state_status ''R'' 30000 machine_R_A) = Some (Some 70)"
proof -
  obtain st where st: "get_state_status ''R'' 150700 machine_R_A = Some st"
    by (simp add: get_state_status_def machine_R_A_eq rule_R_def Let_def)
  obtain st' where st': "get_state_status ''R'' 30000 machine_R_A = Some st'"
    by (simp add: get_state_status_def machine_R_A_eq rule_R_def Let_def)
  have h: "map_of (states machine_R_A) ''R'' = Some 0 \<and> is_active (heap machine_R_A 0) \<and>
        current_transition_index (heap machine_R_A 0) < length (transitions (heap machine_R_A 0)) \<and>
        last_activation_time (heap machine_R_A 0) = Some 0"
    by (simp add: machine_R_A_eq rule_R_def)
  have tmo: "timeout_ms (transitions (heap machine_R_A 0) ! current_transition_index (heap machine_R_A 0)) = 100"
    by (simp add: machine_R_A_eq rule_R_def)
  from C10_remaining_never_negative [OF st] h tmo
  have "status_elapsed_ms st = Some 150 \<and> status_remaining_ms st = Some 0"
    by (simp add: Let_def elapsed_us_def int_ms_def)
  moreover from C10_remaining_never_negative [OF st'] h tmo
  have "status_remaining_ms st' = Some 70"
    by (simp add: Let_def elapsed_us_def int_ms_def)
  ultimately show ?thesis by (simp add: st st')
qed

end
